theory Spec2Isabelle
  imports Main "HOL-Library.Sublist"
begin

section \<open>Strings and paths\<close>

text \<open>
  A Python \<open>str\<close> is modelled as a \<open>string\<close>. The methods used by the crawler are
  written out: \<open>str.startswith\<close>, \<open>str.endswith\<close>, the operator \<open>in\<close> and
  \<open>str.lower\<close>. \<open>lower\<close> maps the letters \<open>A\<close> to \<open>Z\<close> to \<open>a\<close> to \<open>z\<close> and leaves
  every other character as it is, which is \<open>str.lower\<close> on ASCII text; the crawler
  lower-cases only to look for \<open>.pdf\<close>, and no character outside ASCII lower-cases to
  one of its four.
\<close>

fun startswith :: "string \<Rightarrow> string \<Rightarrow> bool" where
  "startswith s [] = True"
| "startswith [] (p # ps) = False"
| "startswith (c # cs) (p # ps) = (c = p \<and> startswith cs ps)"

definition endswith :: "string \<Rightarrow> string \<Rightarrow> bool" where
  "endswith s suf = startswith (rev s) (rev suf)"

text \<open>\<open>str_contains sub s\<close> is Python's \<open>sub in s\<close>.\<close>

fun str_contains :: "string \<Rightarrow> string \<Rightarrow> bool" where
  "str_contains sub [] = (sub = [])"
| "str_contains sub (c # cs) = (startswith (c # cs) sub \<or> str_contains sub cs)"

definition lower_char :: "char \<Rightarrow> char" where
  "lower_char c =
     (case map_of (zip ''ABCDEFGHIJKLMNOPQRSTUVWXYZ'' ''abcdefghijklmnopqrstuvwxyz'') c of
        None \<Rightarrow> c
      | Some l \<Rightarrow> l)"

definition lower :: "string \<Rightarrow> string" where
  "lower s = map lower_char s"

text \<open>
  \<open>os.path.basename\<close> (POSIX): everything after the last \<open>/\<close>.
\<close>

definition basename :: "string \<Rightarrow> string" where
  "basename p = rev (takeWhile (\<lambda>c. c \<noteq> CHR ''/'') (rev p))"

text \<open>
  \<open>os.path.join\<close> (POSIX) of two components: an absolute second component replaces the
  first; otherwise the two are joined by one \<open>/\<close> unless the first is empty or ends in
  one.
\<close>

definition path_join :: "string \<Rightarrow> string \<Rightarrow> string" where
  "path_join a b =
     (if startswith b ''/'' then b
      else if a = [] \<or> endswith a ''/'' then a @ b
      else a @ ''/'' @ b)"

text \<open>
  \<open>os.path.splitext\<close> (POSIX). The extension starts at the last dot of the last path
  component, unless that component has only dots before it: leading dots never start an
  extension. \<open>split_at_last_dot\<close> cuts a component at its last dot.
\<close>

definition split_at_last_dot :: "string \<Rightarrow> string \<times> string" where
  "split_at_last_dot f =
     (let e = takeWhile (\<lambda>c. c \<noteq> CHR ''.'') (rev f)
      in (take (length f - length e - 1) f, drop (length f - length e - 1) f))"

definition splitext :: "string \<Rightarrow> string \<times> string" where
  "splitext p =
     (let d = take (length p - length (basename p)) p;
          f = basename p;
          (stem, ext) = split_at_last_dot f
      in if CHR ''.'' \<in> set f \<and> (\<exists>c \<in> set stem. c \<noteq> CHR ''.'')
         then (d @ stem, ext)
         else (p, []))"

text \<open>
  \<open>str\<close> of a non-negative \<open>int\<close>: its decimal digits. The counter of the collision loop
  starts at 1 and only grows, so it is a \<open>nat\<close>.
\<close>

definition digit_char :: "nat \<Rightarrow> char" where
  "digit_char d = ''0123456789'' ! d"

fun str_nat :: "nat \<Rightarrow> string" where
  "str_nat n = (if n < 10 then [digit_char n] else str_nat (n div 10) @ [digit_char (n mod 10)])"

declare str_nat.simps [simp del]

section \<open>The library functions the crawler is given\<close>

text \<open>
  \<open>urllib.parse.urlparse\<close>, \<open>urllib.parse.urljoin\<close>, the HTTP session, the HTML parser
  and the operating system are not part of the crawler. They are parameters of the model,
  collected in one record, and every theorem holds for each choice of them.
  \<^item> \<open>urlparse\<close> gives the \<open>netloc\<close> and \<open>path\<close> of a URL, or \<open>None\<close> where the library
    raises \<open>ValueError\<close>.
  \<^item> \<open>urljoin\<close> resolves a reference against a base URL, or raises likewise.
  \<^item> \<open>http_get\<close> answers a GET request; the answer may depend on the requests made so
    far. \<open>None\<close> is a transport failure or a timeout.
  \<^item> \<open>find_links\<close> gives the \<open>href\<close> values of the \<open>a\<close> and \<open>link\<close> elements of a body
    in document order, or \<open>None\<close> where the parser raises.
  \<^item> \<open>write_ok\<close> tells whether a file at a path can be opened and written; where it
    cannot, \<open>open\<close> raises and no file appears.
  Paths are POSIX paths. What the interpreter itself may raise (the recursion limit, an
  interrupt, a failing \<open>print\<close>) is not modelled.
\<close>

record parse_result =
  netloc :: string
  path :: string

record response =
  status_code :: int
  content_type :: "string option"
  content :: string

record env =
  urlparse :: "string \<Rightarrow> parse_result option"
  urljoin :: "string \<Rightarrow> string \<Rightarrow> string option"
  http_get :: "string list \<Rightarrow> string \<Rightarrow> response option"
  find_links :: "string \<Rightarrow> string list option"
  write_ok :: "string \<Rightarrow> bool"

datatype exn = RequestException | HTTPError int | ValueError | ParserError | OSError

section \<open>The crawler\<close>

text \<open>
  The fields of \<open>PDFCrawler\<close>, together with the part of the world its methods change:
  the files that exist (a path mapped to its bytes), the GET requests sent so far, the
  lines printed and the number of politeness delays taken.
\<close>

datatype log_line =
    Downloading string
  | Saved string
  | ErrorDownloading string exn
  | Crawling int string
  | ErrorCrawling string exn

record crawler =
  base_url :: string
  domain :: string
  output_dir :: string
  visited_urls :: "string set"
  downloaded_pdfs :: "string set"
  files :: "string \<rightharpoonup> string"
  requests :: "string list"
  printed :: "log_line list"
  delays :: nat

definition print :: "log_line \<Rightarrow> crawler \<Rightarrow> crawler" where
  "print l s = s\<lparr>printed := printed s @ [l]\<rparr>"

text \<open>\<open>is_valid_url\<close>: the URL belongs to the crawler's domain, or has no host.\<close>

definition is_valid_url :: "env \<Rightarrow> crawler \<Rightarrow> string \<Rightarrow> bool option" where
  "is_valid_url E s url =
     (case urlparse E url of
        None \<Rightarrow> None
      | Some parsed \<Rightarrow> Some (netloc parsed = domain s \<or> netloc parsed = []))"

text \<open>\<open>get_pdf_filename\<close>: the file name a URL is saved under.\<close>

definition get_pdf_filename :: "env \<Rightarrow> string \<Rightarrow> string option" where
  "get_pdf_filename E url =
     (case urlparse E url of
        None \<Rightarrow> None
      | Some parsed \<Rightarrow>
          (let filename = basename (path parsed)
           in if \<not> endswith filename ''.pdf'' then Some (filename @ ''.pdf'') else Some filename))"

text \<open>
  The request of \<open>download_pdf\<close> and \<open>crawl_page\<close>: \<open>session.get\<close> followed by
  \<open>raise_for_status\<close>, which raises for a status from 400 to 599. The request is
  recorded whether it succeeds or not.
\<close>

definition fetch :: "env \<Rightarrow> string \<Rightarrow> crawler \<Rightarrow> crawler \<times> (exn + response)" where
  "fetch E url s =
     (let s' = s\<lparr>requests := requests s @ [url]\<rparr>
      in case http_get E (requests s) url of
           None \<Rightarrow> (s', Inl RequestException)
         | Some r \<Rightarrow>
             if 400 \<le> status_code r \<and> status_code r < 600
             then (s', Inl (HTTPError (status_code r)))
             else (s', Inr r))"

text \<open>
  The loop of \<open>download_pdf\<close> that looks for a free path. \<open>ex\<close> is \<open>os.path.exists\<close>.
  The loop need not end when infinitely many paths exist, so it is a partial function:
  \<open>None\<close> stands for a loop that never ends.
\<close>

partial_function (option) collision_loop ::
  "(string \<Rightarrow> bool) \<Rightarrow> string \<Rightarrow> string \<Rightarrow> string \<Rightarrow> string \<Rightarrow> string \<Rightarrow> nat
     \<Rightarrow> (string \<times> string) option" where
  "collision_loop ex out_dir base_name ext filename filepath counter =
     (if ex filepath
      then collision_loop ex out_dir base_name ext
             (base_name @ ''_'' @ str_nat counter @ ext)
             (path_join out_dir (base_name @ ''_'' @ str_nat counter @ ext))
             (counter + 1)
      else Some (filename, filepath))"

text \<open>
  \<open>download_pdf\<close>. Everything after the membership test runs inside \<open>try\<close>, and the
  handler only prints, so the method never raises: a failure at any step leaves the
  state as it was at that step, with one more line printed.
\<close>

definition download_pdf :: "env \<Rightarrow> string \<Rightarrow> crawler \<Rightarrow> crawler option" where
  "download_pdf E pdf_url s =
     (if pdf_url \<in> downloaded_pdfs s then Some s
      else
        case fetch E pdf_url (print (Downloading pdf_url) s) of
          (s1, Inl e) \<Rightarrow> Some (print (ErrorDownloading pdf_url e) s1)
        | (s1, Inr resp) \<Rightarrow>
            (case get_pdf_filename E pdf_url of
               None \<Rightarrow> Some (print (ErrorDownloading pdf_url ValueError) s1)
             | Some filename \<Rightarrow>
                 (case splitext filename of
                    (base_name, ext) \<Rightarrow>
                      (case collision_loop (\<lambda>p. files s1 p \<noteq> None) (output_dir s1)
                              base_name ext filename (path_join (output_dir s1) filename) 1 of
                         None \<Rightarrow> None
                       | Some (filename', filepath) \<Rightarrow>
                           if write_ok E filepath
                           then Some (print (Saved filename')
                                  (s1\<lparr>files := (files s1)(filepath \<mapsto> content resp),
                                      downloaded_pdfs := insert pdf_url (downloaded_pdfs s1)\<rparr>))
                           else Some (print (ErrorDownloading pdf_url OSError) s1)))))"

text \<open>
  The two tests of \<open>crawl_page\<close> that decide what is a PDF: the one on the
  \<open>Content-Type\<close> header of a fetched page (absent, the header reads as the empty
  string), and the one on the \<open>href\<close> of a link, as the attribute is written in the
  page.
\<close>

definition pdf_content_type :: "response \<Rightarrow> bool" where
  "pdf_content_type resp =
     startswith (case content_type resp of None \<Rightarrow> [] | Some v \<Rightarrow> v) ''application/pdf''"

definition pdf_href :: "string \<Rightarrow> bool" where
  "pdf_href href = (endswith (lower href) ''.pdf'' \<or> str_contains ''.pdf'' (lower href))"

text \<open>
  \<open>crawl_page\<close> and its loop over the links of a page, \<open>crawl_links\<close>. A call either
  returns or raises; either way the state it leaves is part of the result. The test of
  the URL against the domain is made before \<open>try\<close>, so a \<open>ValueError\<close> of \<open>urlparse\<close>
  there leaves \<open>crawl_page\<close>; whatever is raised inside \<open>try\<close> is printed by the handler,
  and \<open>crawl_page\<close> returns. The result is \<open>None\<close> only when a collision loop of
  \<open>download_pdf\<close> never ends.
\<close>

datatype outcome = Returned | Raised exn

function
  crawl_page :: "env \<Rightarrow> string \<Rightarrow> int \<Rightarrow> int \<Rightarrow> crawler \<Rightarrow> (outcome \<times> crawler) option" and
  crawl_links :: "env \<Rightarrow> string \<Rightarrow> int \<Rightarrow> int \<Rightarrow> string list \<Rightarrow> crawler
                    \<Rightarrow> (outcome \<times> crawler) option"
where
  "crawl_page E url max_depth current_depth s =
     (if current_depth > max_depth \<or> url \<in> visited_urls s then Some (Returned, s)
      else
        case is_valid_url E s url of
          None \<Rightarrow> Some (Raised ValueError, s)
        | Some False \<Rightarrow> Some (Returned, s)
        | Some True \<Rightarrow>
            (case fetch E url
                    (print (Crawling current_depth url)
                       (s\<lparr>visited_urls := insert url (visited_urls s)\<rparr>)) of
               (s1, Inl e) \<Rightarrow> Some (Returned, print (ErrorCrawling url e) s1)
             | (s1, Inr resp) \<Rightarrow>
                 if pdf_content_type resp
                 then (case download_pdf E url s1 of
                         None \<Rightarrow> None
                       | Some s2 \<Rightarrow> Some (Returned, s2))
                 else
                   (case find_links E (content resp) of
                      None \<Rightarrow> Some (Returned, print (ErrorCrawling url ParserError) s1)
                    | Some hrefs \<Rightarrow>
                        (case crawl_links E url max_depth current_depth hrefs s1 of
                           None \<Rightarrow> None
                         | Some (Returned, s2) \<Rightarrow> Some (Returned, s2)
                         | Some (Raised e, s2) \<Rightarrow>
                             Some (Returned, print (ErrorCrawling url e) s2)))))"
| "crawl_links E url max_depth current_depth [] s = Some (Returned, s)"
| "crawl_links E url max_depth current_depth (href # hrefs) s =
     (case urljoin E url href of
        None \<Rightarrow> Some (Raised ValueError, s)
      | Some full_url \<Rightarrow>
          if pdf_href href
          then (case download_pdf E full_url s of
                  None \<Rightarrow> None
                | Some s1 \<Rightarrow> crawl_links E url max_depth current_depth hrefs s1)
          else
            (case is_valid_url E s full_url of
               None \<Rightarrow> Some (Raised ValueError, s)
             | Some valid \<Rightarrow>
                 if valid \<and> full_url \<notin> visited_urls s
                 then (case crawl_page E full_url max_depth (current_depth + 1)
                              (s\<lparr>delays := delays s + 1\<rparr>) of
                         None \<Rightarrow> None
                       | Some (Returned, s1) \<Rightarrow>
                           crawl_links E url max_depth current_depth hrefs s1
                       | Some (Raised e, s1) \<Rightarrow> Some (Raised e, s1))
                 else crawl_links E url max_depth current_depth hrefs s))"
  by pat_completeness auto
termination
  by (relation "(\<lambda>x. case x of
                    Inl (E, url, max_depth, current_depth, s) \<Rightarrow>
                      2 * nat (max_depth + 1 - current_depth)
                  | Inr (E, url, max_depth, current_depth, hrefs, s) \<Rightarrow>
                      2 * nat (max_depth - current_depth) + 1)
               <*mlex*>
               measure (\<lambda>x. case x of Inl _ \<Rightarrow> 0 | Inr (E, url, max_depth, current_depth, hrefs, s) \<Rightarrow> length hrefs)")
     (auto simp: wf_mlex mlex_less mlex_leq)

declare crawl_page.simps [simp del]

text \<open>
  \<open>__init__\<close>. The constructor raises where \<open>urlparse\<close> does; creating the output
  directory is left out, as no path the crawler tests or writes is that directory.
  \<open>start\<close> calls \<open>crawl_page\<close> on the base URL with depth 0; the lines it prints before
  and after are left out.
\<close>

definition init :: "env \<Rightarrow> string \<Rightarrow> string \<Rightarrow> (string \<rightharpoonup> string) \<Rightarrow> crawler option" where
  "init E url dir fs =
     (case urlparse E url of
        None \<Rightarrow> None
      | Some parsed \<Rightarrow>
          Some \<lparr>base_url = url, domain = netloc parsed, output_dir = dir,
                visited_urls = {}, downloaded_pdfs = {}, files = fs,
                requests = [], printed = [], delays = 0\<rparr>)"

section \<open>Auxiliary definitions\<close>

text \<open>
  The path tried by the collision loop when its counter is \<open>k\<close>.
\<close>

definition candidate :: "string \<Rightarrow> string \<Rightarrow> string \<Rightarrow> nat \<Rightarrow> string" where
  "candidate out_dir base_name ext k = path_join out_dir (base_name @ ''_'' @ str_nat k @ ext)"

text \<open>
  What a step of the crawler may change. The base URL, the domain and the output
  directory stay; the two sets, the files, the requests sent, the lines printed and the
  delays only grow; finitely many files stay finitely many; and a URL enters
  \<open>visited_urls\<close> only if \<open>is_valid_url\<close> holds for it.
\<close>

definition grows :: "env \<Rightarrow> crawler \<Rightarrow> crawler \<Rightarrow> bool" where
  "grows E s s' \<longleftrightarrow>
     base_url s' = base_url s \<and> domain s' = domain s \<and> output_dir s' = output_dir s \<and>
     visited_urls s \<subseteq> visited_urls s' \<and> downloaded_pdfs s \<subseteq> downloaded_pdfs s' \<and>
     files s \<subseteq>\<^sub>m files s' \<and> prefix (requests s) (requests s') \<and>
     prefix (printed s) (printed s') \<and> delays s \<le> delays s' \<and>
     (finite (dom (files s)) \<longrightarrow> finite (dom (files s'))) \<and>
     (\<forall>u \<in> visited_urls s'. u \<in> visited_urls s \<or> is_valid_url E s u = Some True)"

text \<open>
  For concrete runs: the core of \<open>urlparse\<close> on URLs without parameters, brackets,
  surrounding blanks or control characters. A scheme is cut off at the first colon when
  what precedes it starts with a letter and has scheme characters only; after \<open>//\<close> the
  host runs up to the first of \<open>/\<close>, \<open>?\<close> and \<open>#\<close>; the path ends where the query or
  the fragment starts.
\<close>

definition strip_scheme :: "string \<Rightarrow> string" where
  "strip_scheme url =
     (let pre = takeWhile (\<lambda>c. c \<noteq> CHR '':'') url
      in if CHR '':'' \<in> set url \<and> pre \<noteq> []
            \<and> hd pre \<in> set ''abcdefghijklmnopqrstuvwxyzABCDEFGHIJKLMNOPQRSTUVWXYZ''
            \<and> list_all (\<lambda>c. c \<in> set ''abcdefghijklmnopqrstuvwxyzABCDEFGHIJKLMNOPQRSTUVWXYZ0123456789+-.'') pre
         then drop (length pre + 1) url
         else url)"

definition urlparse_model :: "string \<Rightarrow> parse_result option" where
  "urlparse_model url =
     (let rest = strip_scheme url;
          host = (if startswith rest ''//''
                  then takeWhile (\<lambda>c. c \<notin> set ''/?#'') (drop 2 rest) else []);
          rest' = (if startswith rest ''//''
                   then dropWhile (\<lambda>c. c \<notin> set ''/?#'') (drop 2 rest) else rest)
      in Some \<lparr>netloc = host, path = takeWhile (\<lambda>c. c \<notin> set ''?#'') rest'\<rparr>)"

text \<open>
  A world given by tables: what \<open>urljoin\<close> returns for a page and a reference, what
  each URL answers, and the links of each body. A URL without an entry cannot be
  reached; every file can be written.
\<close>

definition table_env ::
  "((string \<times> string) \<times> string) list \<Rightarrow> (string \<times> response) list \<Rightarrow> (string \<times> string list) list
     \<Rightarrow> env" where
  "table_env joins pages links =
     \<lparr>urlparse = urlparse_model,
      urljoin = (\<lambda>base href. map_of joins (base, href)),
      http_get = (\<lambda>sent url. map_of pages url),
      find_links = map_of links,
      write_ok = (\<lambda>p. True)\<rparr>"

definition html :: "string \<Rightarrow> response" where
  "html body = \<lparr>status_code = 200, content_type = Some ''text/html; charset=utf-8'', content = body\<rparr>"

definition pdf :: "string \<Rightarrow> response" where
  "pdf body = \<lparr>status_code = 200, content_type = Some ''application/pdf'', content = body\<rparr>"

text \<open>
  The crawler for the seed \<open>https://site.com/\<close> as the constructor leaves it, over a
  given output directory.
\<close>

definition site_crawler :: "string \<Rightarrow> (string \<rightharpoonup> string) \<Rightarrow> crawler" where
  "site_crawler dir fs =
     \<lparr>base_url = ''https://site.com/'', domain = ''site.com'', output_dir = dir,
      visited_urls = {}, downloaded_pdfs = {}, files = fs,
      requests = [], printed = [], delays = 0\<rparr>"

text \<open>
  A small site. The seed page links to a PDF, to a second page, to a page and a PDF on
  another host, and twice to a PDF that answers 404. The second page links back to the
  seed and to a page that cannot be reached. The site also serves two PDFs from one
  path that ends in \<open>/\<close>, told apart by the query, and a PDF named \<open>report.pdf\<close>.
\<close>

definition site_joins :: "((string \<times> string) \<times> string) list" where
  "site_joins =
     [((''https://site.com/'', ''doc.pdf''), ''https://site.com/doc.pdf''),
      ((''https://site.com/'', ''page2.html''), ''https://site.com/page2.html''),
      ((''https://site.com/'', ''https://other.example.com/x''), ''https://other.example.com/x''),
      ((''https://site.com/'', ''https://other.example.com/y.pdf''),
         ''https://other.example.com/y.pdf''),
      ((''https://site.com/'', ''missing.pdf''), ''https://site.com/missing.pdf''),
      ((''https://site.com/page2.html'', ''/''), ''https://site.com/''),
      ((''https://site.com/page2.html'', ''gone.html''), ''https://site.com/gone.html'')]"

definition site_pages :: "(string \<times> response) list" where
  "site_pages =
     [(''https://site.com/'', html ''seed''),
      (''https://site.com/page2.html'', html ''page2''),
      (''https://site.com/doc.pdf'', pdf ''%PDF doc''),
      (''https://other.example.com/y.pdf'', pdf ''%PDF y''),
      (''https://site.com/missing.pdf'',
         \<lparr>status_code = 404, content_type = Some ''text/html'', content = ''not found''\<rparr>),
      (''https://site.com/get/?f=a.pdf'', pdf ''%PDF a''),
      (''https://site.com/get/?f=b.pdf'', pdf ''%PDF b''),
      (''https://site.com/files/report.pdf'', pdf ''%PDF report'')]"

definition site_links :: "(string \<times> string list) list" where
  "site_links =
     [(''seed'', [''doc.pdf'', ''page2.html'', ''https://other.example.com/x'',
                  ''https://other.example.com/y.pdf'', ''missing.pdf'', ''missing.pdf'']),
      (''page2'', [''/'', ''gone.html''])]"

definition site :: env where
  "site = table_env site_joins site_pages site_links"

text \<open>
  The states the site's crawler is in after a crawl with \<open>max_depth = 0\<close> from the
  seed, and after a download of \<open>doc.pdf\<close> alone, both over an empty output directory.
\<close>

definition site_after_depth0 :: crawler where
  "site_after_depth0 =
     \<lparr>base_url = ''https://site.com/'', domain = ''site.com'', output_dir = ''out'',
      visited_urls = {''https://site.com/''},
      downloaded_pdfs = {''https://other.example.com/y.pdf'', ''https://site.com/doc.pdf''},
      files = [''out/doc.pdf'' \<mapsto> ''%PDF doc'', ''out/y.pdf'' \<mapsto> ''%PDF y''],
      requests =
        [''https://site.com/'', ''https://site.com/doc.pdf'', ''https://other.example.com/y.pdf'',
         ''https://site.com/missing.pdf'', ''https://site.com/missing.pdf''],
      printed =
        [Crawling 0 ''https://site.com/'',
         Downloading ''https://site.com/doc.pdf'', Saved ''doc.pdf'',
         Downloading ''https://other.example.com/y.pdf'', Saved ''y.pdf'',
         Downloading ''https://site.com/missing.pdf'',
         ErrorDownloading ''https://site.com/missing.pdf'' (HTTPError 404),
         Downloading ''https://site.com/missing.pdf'',
         ErrorDownloading ''https://site.com/missing.pdf'' (HTTPError 404)],
      delays = 1\<rparr>"

definition site_after_doc :: crawler where
  "site_after_doc =
     \<lparr>base_url = ''https://site.com/'', domain = ''site.com'', output_dir = ''out'',
      visited_urls = {},
      downloaded_pdfs = {''https://site.com/doc.pdf''},
      files = [''out/doc.pdf'' \<mapsto> ''%PDF doc''],
      requests = [''https://site.com/doc.pdf''],
      printed = [Downloading ''https://site.com/doc.pdf'', Saved ''doc.pdf''],
      delays = 0\<rparr>"


section \<open>Strings and paths: properties\<close>

lemma startswith_iff: "startswith s p \<longleftrightarrow> prefix p s"
  by (induction s p rule: startswith.induct) auto

lemma endswith_iff: "endswith s suf \<longleftrightarrow> suffix suf s"
  by (simp add: endswith_def startswith_iff suffix_to_prefix)

lemma endswith_append: "endswith (s @ suf) suf"
  by (simp add: endswith_iff suffix_def)



lemma basename_split: "\<exists>d. p = d @ basename p \<and> (d = [] \<or> last d = CHR ''/'')"
proof -
  let ?P = "\<lambda>c. c \<noteq> CHR ''/''"
  have "rev p = takeWhile ?P (rev p) @ dropWhile ?P (rev p)" by simp
  then have "p = rev (dropWhile ?P (rev p)) @ basename p"
    unfolding basename_def by (metis rev_append rev_rev_ident)
  moreover have "dropWhile ?P (rev p) = [] \<or> hd (dropWhile ?P (rev p)) = CHR ''/''"
    using hd_dropWhile[of ?P "rev p"] by auto
  then have "rev (dropWhile ?P (rev p)) = [] \<or> last (rev (dropWhile ?P (rev p))) = CHR ''/''"
    by (auto simp: last_rev)
  ultimately show ?thesis by blast
qed

lemma str_nat_nonempty: "str_nat n \<noteq> []"
  by (subst str_nat.simps) simp

lemma digit_char_inj: "a < 10 \<Longrightarrow> b < 10 \<Longrightarrow> digit_char a = digit_char b \<Longrightarrow> a = b"
proof -
  assume a: "a < 10" and b: "b < 10" and e: "digit_char a = digit_char b"
  have d: "distinct ''0123456789''" by simp
  have l: "length ''0123456789'' = 10" by simp
  from e show "a = b" unfolding digit_char_def
    using nth_eq_iff_index_eq[OF d, of a b] a b l by simp
qed

lemma str_nat_inj: "str_nat m = str_nat n \<Longrightarrow> m = n"
proof (induction m arbitrary: n rule: str_nat.induct)
  case (1 m)
  show ?case
  proof (cases "m < 10")
    case True
    then have m: "str_nat m = [digit_char m]" by (subst str_nat.simps) simp
    show ?thesis
    proof (cases "n < 10")
      case True
      then have "str_nat n = [digit_char n]" by (subst str_nat.simps) simp
      with m "1.prems" \<open>m < 10\<close> True show ?thesis by (simp add: digit_char_inj)
    next
      case False
      then have "str_nat n = str_nat (n div 10) @ [digit_char (n mod 10)]"
        by (subst str_nat.simps) simp
      with m "1.prems" have "str_nat (n div 10) = []" by simp
      then show ?thesis by (simp add: str_nat_nonempty)
    qed
  next
    case False
    then have m: "str_nat m = str_nat (m div 10) @ [digit_char (m mod 10)]"
      by (subst str_nat.simps) simp
    show ?thesis
    proof (cases "n < 10")
      case True
      then have "str_nat n = [digit_char n]" by (subst str_nat.simps) simp
      with m "1.prems" have "str_nat (m div 10) = []" by simp
      then show ?thesis by (simp add: str_nat_nonempty)
    next
      case nf: False
      then have "str_nat n = str_nat (n div 10) @ [digit_char (n mod 10)]"
        by (subst str_nat.simps) simp
      with m "1.prems" have e: "str_nat (m div 10) = str_nat (n div 10)"
        and d: "digit_char (m mod 10) = digit_char (n mod 10)" by simp_all
      from "1.IH"[OF False e] have "m div 10 = n div 10" .
      moreover from d have "m mod 10 = n mod 10" by (simp add: digit_char_inj)
      ultimately show ?thesis by (metis div_mult_mod_eq)
    qed
  qed
qed


lemma init_site:
  "init (table_env joins pages links) ''https://site.com/'' dir fs = Some (site_crawler dir fs)"
  by (simp add: init_def table_env_def urlparse_model_def strip_scheme_def site_crawler_def)

section \<open>File names\<close>



text \<open>
  C10. The test for the \<open>.pdf\<close> ending in \<open>get_pdf_filename\<close> is case-sensitive. A
  basename that ends in \<open>.pdf\<close> only after lower-casing, such as \<open>DOC.PDF\<close>, gets \<open>.pdf\<close>
  appended, although the link test accepts it as a PDF; the basename is kept as it is
  exactly when it ends in lower-case \<open>.pdf\<close>.
\<close>

theorem get_pdf_filename_case_sensitive:
  assumes "urlparse E url = Some parsed"
  shows "(suffix ''.pdf'' (lower (basename (path parsed))) \<and> \<not> suffix ''.pdf'' (basename (path parsed))
            \<longrightarrow> get_pdf_filename E url = Some (basename (path parsed) @ ''.pdf'')
                \<and> pdf_href (basename (path parsed))) \<and>
         (get_pdf_filename E url = Some (basename (path parsed))
            \<longleftrightarrow> suffix ''.pdf'' (basename (path parsed)))"
  using assms by (auto simp: get_pdf_filename_def Let_def endswith_iff pdf_href_def split: if_splits)

theorem get_pdf_filename_case_sensitive_witness:
  "urlparse (table_env [] [] []) ''https://site.com/DOC.PDF'' =
     Some \<lparr>netloc = ''site.com'', path = ''/DOC.PDF''\<rparr> \<and>
   basename ''/DOC.PDF'' = ''DOC.PDF'' \<and>
   suffix ''.pdf'' (lower ''DOC.PDF'') \<and> \<not> suffix ''.pdf'' ''DOC.PDF'' \<and>
   get_pdf_filename (table_env [] [] []) ''https://site.com/DOC.PDF'' = Some ''DOC.PDF.pdf'' \<and>
   pdf_href ''DOC.PDF''"
proof -
  have b: "basename ''/DOC.PDF'' = ''DOC.PDF''" by (simp add: basename_def)
  have p: "urlparse (table_env [] [] []) ''https://site.com/DOC.PDF'' =
             Some \<lparr>netloc = ''site.com'', path = ''/DOC.PDF''\<rparr>"
    by (simp add: table_env_def urlparse_model_def strip_scheme_def)
  have l: "suffix ''.pdf'' (lower ''DOC.PDF'')"
    by (simp add: lower_def lower_char_def endswith_iff [symmetric] endswith_def)
  have n: "\<not> suffix ''.pdf'' ''DOC.PDF''"
    by (simp add: endswith_iff [symmetric] endswith_def)
  from get_pdf_filename_case_sensitive [OF p] b l n p show ?thesis by simp
qed

section \<open>The collision loop\<close>

lemma candidate_inj: "candidate out b e j = candidate out b e k \<Longrightarrow> j = k"
proof -
  assume a: "candidate out b e j = candidate out b e k"
  have sw: "startswith (b @ ''_'' @ str_nat j @ e) ''/'' = startswith (b @ ''_'' @ str_nat k @ e) ''/''"
    by (cases b) simp_all
  from a sw have "b @ ''_'' @ str_nat j @ e = b @ ''_'' @ str_nat k @ e"
    unfolding candidate_def path_join_def by (auto split: if_splits)
  then show "j = k" by (simp add: str_nat_inj)
qed


lemma collision_loop_free:
  "\<not> ex filepath \<Longrightarrow>
   collision_loop ex out_dir base_name ext filename filepath counter = Some (filename, filepath)"
  by (subst collision_loop.simps) simp

lemma collision_loop_first_free:
  assumes "\<not> ex (candidate out_dir base_name ext k)"
    and "\<forall>j. counter \<le> j \<and> j < k \<longrightarrow> ex (candidate out_dir base_name ext j)"
    and "counter \<le> k" and "ex filepath"
  shows "collision_loop ex out_dir base_name ext filename filepath counter =
         Some (base_name @ ''_'' @ str_nat k @ ext, candidate out_dir base_name ext k)"
  using assms
proof (induction "k - counter" arbitrary: counter filename filepath)
  case 0
  then have "counter = k" by simp
  with 0 show ?case
    by (subst collision_loop.simps) (simp add: collision_loop_free candidate_def)
next
  case (Suc n)
  then have lt: "counter < k" by simp
  with Suc.prems have occupied: "ex (candidate out_dir base_name ext counter)" by simp
  have "collision_loop ex out_dir base_name ext (base_name @ ''_'' @ str_nat counter @ ext)
          (candidate out_dir base_name ext counter) (counter + 1) =
        Some (base_name @ ''_'' @ str_nat k @ ext, candidate out_dir base_name ext k)"
    using Suc.hyps(2) Suc.prems lt occupied by (intro Suc.hyps(1)) auto
  with Suc.prems(4) show ?case
    by (subst collision_loop.simps) (simp add: candidate_def)
qed

lemma free_candidate_exists:
  assumes "finite {p. ex p}"
  shows "\<exists>k\<ge>counter. \<not> ex (candidate out_dir base_name ext k)"
proof (rule ccontr)
  assume "\<not> ?thesis"
  then have "candidate out_dir base_name ext ` {counter..} \<subseteq> {p. ex p}" by auto
  with assms have "finite (candidate out_dir base_name ext ` {counter..})"
    by (rule rev_finite_subset)
  moreover have "inj_on (candidate out_dir base_name ext) {counter..}"
    by (rule inj_onI) (rule candidate_inj)
  ultimately have "finite {counter..}" by (rule finite_imageD)
  then show False by (simp add: infinite_Ici)
qed

lemma least_free_candidate:
  assumes "finite {p. ex p}"
  shows "\<exists>k\<ge>counter. \<not> ex (candidate out_dir base_name ext k) \<and>
           (\<forall>j. counter \<le> j \<and> j < k \<longrightarrow> ex (candidate out_dir base_name ext j))"
proof -
  let ?F = "\<lambda>k. counter \<le> k \<and> \<not> ex (candidate out_dir base_name ext k)"
  from free_candidate_exists[OF assms] obtain k0 where "?F k0" by blast
  then have "?F (LEAST k. ?F k)" by (rule LeastI)
  moreover have "\<And>j. j < (LEAST k. ?F k) \<Longrightarrow> \<not> ?F j" by (rule not_less_Least)
  ultimately show ?thesis by blast
qed


lemma collision_loop_ends:
  assumes "finite {p. ex p}"
  shows "\<exists>name target.
           collision_loop ex out_dir base_name ext filename filepath counter = Some (name, target) \<and>
           \<not> ex target"
proof (cases "ex filepath")
  case False
  then show ?thesis by (auto simp: collision_loop_free)
next
  case True
  from least_free_candidate[OF assms] obtain k where
    "counter \<le> k" "\<not> ex (candidate out_dir base_name ext k)"
    "\<forall>j. counter \<le> j \<and> j < k \<longrightarrow> ex (candidate out_dir base_name ext j)" by blast
  with True show ?thesis
    using collision_loop_first_free[of ex out_dir base_name ext k counter filepath filename] by auto
qed

text \<open>
  C8. When only finitely many paths exist, the collision loop ends, whatever the base
  name, the extension, the path it starts from and the value of its counter, and the
  path it ends with does not exist.
\<close>

theorem collision_loop_terminates:
  assumes "finite {p. ex p}"
  shows "\<exists>name target.
           collision_loop ex out_dir base_name ext filename filepath counter = Some (name, target) \<and>
           \<not> ex target"
  using assms by (rule collision_loop_ends)

theorem collision_loop_terminates_witness:
  "finite {p. p \<in> {''out/report.pdf'', ''out/report_1.pdf''}} \<and>
   (\<exists>name target.
      collision_loop (\<lambda>p. p \<in> {''out/report.pdf'', ''out/report_1.pdf''}) ''out'' ''report'' ''.pdf''
        ''report.pdf'' ''out/report.pdf'' 1 = Some (name, target) \<and>
      target \<notin> {''out/report.pdf'', ''out/report_1.pdf''})"
  using collision_loop_terminates [of "\<lambda>p. p \<in> {''out/report.pdf'', ''out/report_1.pdf''}"
      "''out''" "''report''" "''.pdf''" "''report.pdf''" "''out/report.pdf''" 1]
  by simp



section \<open>\<open>download_pdf\<close>: properties\<close>

lemma fetch_cases:
  "fetch E url s = (s', r) \<Longrightarrow> s' = s\<lparr>requests := requests s @ [url]\<rparr>"
  by (auto simp: fetch_def Let_def split: option.splits if_splits)

lemma download_pdf_noop:
  "pdf_url \<in> downloaded_pdfs s \<Longrightarrow> download_pdf E pdf_url s = Some s"
  by (simp add: download_pdf_def)




lemma collision_loop_result_free:
  assumes "collision_loop ex out_dir base_name ext filename filepath counter = Some r"
  shows "\<not> ex (snd r)"
  by (rule collision_loop.raw_induct[where P = "\<lambda>ex _ _ _ _ _ _ y. \<not> ex (snd y)", OF _ assms])
     (fastforce split: if_splits)

lemma download_pdf_frame:
  assumes "download_pdf E pdf_url s = Some s'"
  shows "base_url s' = base_url s \<and> domain s' = domain s \<and> output_dir s' = output_dir s \<and>
         visited_urls s' = visited_urls s \<and> delays s' = delays s"
  using assms
  by (auto simp: download_pdf_def print_def dest!: fetch_cases
           split: prod.splits sum.splits option.splits if_splits)

lemma download_pdf_requests:
  assumes "download_pdf E pdf_url s = Some s'"
  shows "requests s' = (if pdf_url \<in> downloaded_pdfs s then requests s else requests s @ [pdf_url])"
  using assms
  by (auto simp: download_pdf_def print_def dest!: fetch_cases
           split: prod.splits sum.splits option.splits if_splits)

lemma download_pdf_files:
  assumes "download_pdf E pdf_url s = Some s'"
  shows "(files s' = files s \<and> downloaded_pdfs s' = downloaded_pdfs s) \<or>
         (\<exists>target body. files s target = None \<and> write_ok E target \<and>
            files s' = (files s)(target \<mapsto> body) \<and> pdf_url \<notin> downloaded_pdfs s \<and>
            downloaded_pdfs s' = insert pdf_url (downloaded_pdfs s))"
  using assms
  by (fastforce simp: download_pdf_def print_def dest!: fetch_cases collision_loop_result_free
           split: prod.splits sum.splits option.splits if_splits)

lemma download_pdf_total:
  assumes "finite (dom (files s))"
  shows "\<exists>s'. download_pdf E pdf_url s = Some s'"
proof -
  have fin: "finite {p. files s p \<noteq> None}"
    using assms by (simp add: dom_def)
  have ends: "collision_loop (\<lambda>p. \<exists>y. files s p = Some y) a b c d e f \<noteq> None" for a b c d e f
    using collision_loop_ends[OF fin, of a b c d e f] by auto
  show ?thesis
    by (auto simp: download_pdf_def print_def fetch_def Let_def ends
           split: prod.splits sum.splits option.splits if_splits)
qed

section \<open>What a step may change\<close>

lemma is_valid_url_domain: "domain t = domain s \<Longrightarrow> is_valid_url E t u = is_valid_url E s u"
  by (auto simp: is_valid_url_def split: option.splits)

lemma grows_refl: "grows E s s"
  by (simp add: grows_def)

lemma growsD:
  assumes "grows E s t"
  shows "base_url t = base_url s" and "domain t = domain s" and "output_dir t = output_dir s"
    and "visited_urls s \<subseteq> visited_urls t" and "downloaded_pdfs s \<subseteq> downloaded_pdfs t"
    and "files s \<subseteq>\<^sub>m files t" and "prefix (requests s) (requests t)"
    and "prefix (printed s) (printed t)" and "delays s \<le> delays t"
    and "finite (dom (files s)) \<Longrightarrow> finite (dom (files t))"
    and "\<And>x. x \<in> visited_urls t \<Longrightarrow> x \<notin> visited_urls s \<Longrightarrow> is_valid_url E s x = Some True"
  using assms unfolding grows_def by blast+

lemma grows_trans:
  assumes "grows E s t" and "grows E t u"
  shows "grows E s u"
  unfolding grows_def
proof (intro conjI ballI impI)
  show "base_url u = base_url s" using growsD(1)[OF assms(1)] growsD(1)[OF assms(2)] by simp
  show "domain u = domain s" using growsD(2)[OF assms(1)] growsD(2)[OF assms(2)] by simp
  show "output_dir u = output_dir s" using growsD(3)[OF assms(1)] growsD(3)[OF assms(2)] by simp
  show "visited_urls s \<subseteq> visited_urls u"
    using growsD(4)[OF assms(1)] growsD(4)[OF assms(2)] by (rule subset_trans)
  show "downloaded_pdfs s \<subseteq> downloaded_pdfs u"
    using growsD(5)[OF assms(1)] growsD(5)[OF assms(2)] by (rule subset_trans)
  show "files s \<subseteq>\<^sub>m files u"
    using growsD(6)[OF assms(1)] growsD(6)[OF assms(2)] by (rule map_le_trans)
  show "prefix (requests s) (requests u)"
    using growsD(7)[OF assms(1)] growsD(7)[OF assms(2)] by (rule prefix_order.order_trans)
  show "prefix (printed s) (printed u)"
    using growsD(8)[OF assms(1)] growsD(8)[OF assms(2)] by (rule prefix_order.order_trans)
  show "delays s \<le> delays u"
    using growsD(9)[OF assms(1)] growsD(9)[OF assms(2)] by (rule order_trans)
  show "finite (dom (files u))" if "finite (dom (files s))"
    using that growsD(10)[OF assms(1)] growsD(10)[OF assms(2)] by blast
  show "x \<in> visited_urls s \<or> is_valid_url E s x = Some True" if "x \<in> visited_urls u" for x
  proof (cases "x \<in> visited_urls t")
    case True
    then show ?thesis using growsD(11)[OF assms(1)] by blast
  next
    case False
    with that have "is_valid_url E t x = Some True" by (rule growsD(11)[OF assms(2)])
    then show ?thesis
      using is_valid_url_domain[OF growsD(2)[OF assms(1)], of E x] by simp
  qed
qed

lemma grows_print: "grows E s (print l s)"
  by (simp add: grows_def print_def)

lemma grows_fetch: "fetch E url s = (s', r) \<Longrightarrow> grows E s s'"
  by (auto simp: grows_def dest!: fetch_cases)

lemma grows_delay: "grows E s (s\<lparr>delays := delays s + 1\<rparr>)"
  by (simp add: grows_def)

lemma grows_visit:
  "is_valid_url E s url = Some True \<Longrightarrow> grows E s (s\<lparr>visited_urls := insert url (visited_urls s)\<rparr>)"
  by (auto simp: grows_def)

lemma download_pdf_printed:
  assumes "download_pdf E pdf_url s = Some s'"
  shows "prefix (printed s) (printed s')"
  using assms
  by (auto simp: download_pdf_def print_def dest!: fetch_cases
           split: prod.splits sum.splits option.splits if_splits)

lemma grows_download:
  assumes "download_pdf E pdf_url s = Some s'"
  shows "grows E s s'"
proof -
  note fr = download_pdf_frame[OF assms]
  have rq: "prefix (requests s) (requests s')"
    using download_pdf_requests[OF assms] by simp
  have fl: "files s \<subseteq>\<^sub>m files s' \<and> downloaded_pdfs s \<subseteq> downloaded_pdfs s' \<and>
            (finite (dom (files s)) \<longrightarrow> finite (dom (files s')))"
    using download_pdf_files[OF assms] by (auto simp: map_le_def)
  show ?thesis
    unfolding grows_def using fr rq fl download_pdf_printed[OF assms] by simp
qed

section \<open>\<open>crawl_page\<close>: unfolding, invariant and totality\<close>

lemma crawl_page_skip:
  "current_depth > max_depth \<or> url \<in> visited_urls s \<Longrightarrow>
   crawl_page E url max_depth current_depth s = Some (Returned, s)"
  by (subst crawl_page.simps) simp

lemma crawl_page_invalid:
  "is_valid_url E s url = Some False \<Longrightarrow>
   crawl_page E url max_depth current_depth s = Some (Returned, s)"
  by (subst crawl_page.simps) simp

lemma crawl_page_raises:
  "\<not> (current_depth > max_depth \<or> url \<in> visited_urls s) \<Longrightarrow> is_valid_url E s url = None \<Longrightarrow>
   crawl_page E url max_depth current_depth s = Some (Raised ValueError, s)"
  by (subst crawl_page.simps) simp

lemma crawl_page_enter:
  assumes "\<not> (current_depth > max_depth \<or> url \<in> visited_urls s)"
    and "is_valid_url E s url = Some True"
    and "fetch E url (print (Crawling current_depth url)
           (s\<lparr>visited_urls := insert url (visited_urls s)\<rparr>)) = (s1, res)"
  shows "crawl_page E url max_depth current_depth s =
    (case res of
       Inl e \<Rightarrow> Some (Returned, print (ErrorCrawling url e) s1)
     | Inr resp \<Rightarrow>
         if pdf_content_type resp
         then (case download_pdf E url s1 of
                 None \<Rightarrow> None
               | Some s2 \<Rightarrow> Some (Returned, s2))
         else
           (case find_links E (content resp) of
              None \<Rightarrow> Some (Returned, print (ErrorCrawling url ParserError) s1)
            | Some hrefs \<Rightarrow>
                (case crawl_links E url max_depth current_depth hrefs s1 of
                   None \<Rightarrow> None
                 | Some (Returned, s2) \<Rightarrow> Some (Returned, s2)
                 | Some (Raised e, s2) \<Rightarrow> Some (Returned, print (ErrorCrawling url e) s2))))"
  using assms by (subst crawl_page.simps) (simp split: sum.splits)

lemma crawl_grows:
  "(\<forall>out s'. crawl_page E url max_depth current_depth s = Some (out, s') \<longrightarrow> grows E s s')"
  "(\<forall>out s'. crawl_links E url max_depth current_depth hrefs s = Some (out, s') \<longrightarrow> grows E s s')"
proof (induction E url max_depth current_depth s and E url max_depth current_depth hrefs s
       rule: crawl_page_crawl_links.induct)
  case (1 E url max_depth current_depth s)
  show ?case
  proof (intro allI impI)
    fix out s'
    assume r: "crawl_page E url max_depth current_depth s = Some (out, s')"
    show "grows E s s'"
    proof (cases "current_depth > max_depth \<or> url \<in> visited_urls s")
      case True
      with r show ?thesis by (simp add: crawl_page_skip grows_refl)
    next
      case guard: False
      show ?thesis
      proof (cases "is_valid_url E s url")
        case None
        with r guard show ?thesis by (simp add: crawl_page_raises grows_refl)
      next
        case (Some v)
        show ?thesis
        proof (cases v)
          case False
          with r Some show ?thesis by (simp add: crawl_page_invalid grows_refl)
        next
          case True
          let ?s0 = "print (Crawling current_depth url) (s\<lparr>visited_urls := insert url (visited_urls s)\<rparr>)"
          obtain s1 res where f: "fetch E url ?s0 = (s1, res)" by (cases "fetch E url ?s0")
          from Some True have valid: "is_valid_url E s url = Some True" by simp
          note unfold = crawl_page_enter[OF guard valid f]
          have g1: "grows E s s1"
            by (rule grows_trans[OF grows_trans[OF grows_visit[OF valid] grows_print] grows_fetch[OF f]])
          show ?thesis
          proof (cases res)
            case (Inl e)
            with r unfold have "s' = print (ErrorCrawling url e) s1"
              by simp
            with g1 show ?thesis using grows_trans[OF _ grows_print] by simp
          next
            case (Inr resp)
            show ?thesis
            proof (cases "pdf_content_type resp")
              case pdf: True
              with r unfold Inr obtain s2 where
                "download_pdf E url s1 = Some s2" "s' = s2"
                by (auto split: option.splits)
              with g1 show ?thesis using grows_trans[OF _ grows_download] by simp
            next
              case nopdf: False
              show ?thesis
              proof (cases "find_links E (content resp)")
                case None
                with r unfold Inr nopdf have "s' = print (ErrorCrawling url ParserError) s1"
                  by simp
                with g1 show ?thesis using grows_trans[OF _ grows_print] by simp
              next
                case links: (Some hrefs)
                from "1.IH"[OF guard valid refl f[symmetric] Inr nopdf links]
                have ih: "\<And>out s'. crawl_links E url max_depth current_depth hrefs s1 = Some (out, s') \<Longrightarrow> grows E s1 s'"
                  by blast
                from r unfold Inr nopdf links obtain o2 s2 where
                  c: "crawl_links E url max_depth current_depth hrefs s1 = Some (o2, s2)"
                  by (auto split: option.splits)
                have s': "s' = s2 \<or> (\<exists>e. s' = print (ErrorCrawling url e) s2)"
                  using r unfold Inr nopdf links c by (cases o2) auto
                from g1 ih[OF c] have "grows E s s2" by (rule grows_trans)
                with s' show ?thesis using grows_trans[OF _ grows_print] by auto
              qed
            qed
          qed
        qed
      qed
    qed
  qed
next
  case (2 E url max_depth current_depth s)
  show ?case by (simp add: grows_refl)
next
  case (3 E url max_depth current_depth href hrefs s)
  show ?case
  proof (intro allI impI)
    fix out s'
    assume r: "crawl_links E url max_depth current_depth (href # hrefs) s = Some (out, s')"
    show "grows E s s'"
    proof (cases "urljoin E url href")
      case None
      with r show ?thesis by (simp add: grows_refl)
    next
      case (Some full_url)
      show ?thesis
      proof (cases "pdf_href href")
        case True
        with r Some obtain s1 where d: "download_pdf E full_url s = Some s1"
          and c: "crawl_links E url max_depth current_depth hrefs s1 = Some (out, s')"
          by (auto split: option.splits)
        from "3.IH"(1)[OF Some True d] c have "grows E s1 s'" by blast
        with grows_download[OF d] show ?thesis by (rule grows_trans)
      next
        case nopdf: False
        show ?thesis
        proof (cases "is_valid_url E s full_url")
          case None
          with r Some nopdf show ?thesis by (simp add: grows_refl)
        next
          case valid: (Some v)
          show ?thesis
          proof (cases "v \<and> full_url \<notin> visited_urls s")
            case False
            with r Some nopdf valid have c: "crawl_links E url max_depth current_depth hrefs s = Some (out, s')"
              by auto
            from "3.IH"(4)[OF Some nopdf valid False] c show ?thesis by blast
          next
            case True
            let ?s0 = "s\<lparr>delays := delays s + 1\<rparr>"
            from r Some nopdf valid True obtain o1 s1 where
              p: "crawl_page E full_url max_depth (current_depth + 1) ?s0 = Some (o1, s1)"
              by (auto split: option.splits)
            from "3.IH"(2)[OF Some nopdf valid True] p have "grows E ?s0 s1" by blast
            with grows_delay[of E s] have g1: "grows E s s1" by (rule grows_trans)
            show ?thesis
            proof (cases o1)
              case Returned
              with r Some nopdf valid True p have
                c: "crawl_links E url max_depth current_depth hrefs s1 = Some (out, s')"
                by auto
              from "3.IH"(3)[OF Some nopdf valid True p refl Returned] c have "grows E s1 s'" by blast
              with g1 show ?thesis by (rule grows_trans)
            next
              case (Raised e)
              with r Some nopdf valid True p have "s' = s1" by auto
              with g1 show ?thesis by simp
            qed
          qed
        qed
      qed
    qed
  qed
qed



lemma download_pdf_fetch_error:
  assumes "pdf_url \<notin> downloaded_pdfs s"
    and "fetch E pdf_url (print (Downloading pdf_url) s) = (s1, Inl e)"
  shows "download_pdf E pdf_url s = Some (print (ErrorDownloading pdf_url e) s1)"
  using assms by (simp add: download_pdf_def)

lemma fetch_fails:
  assumes "http_get E (requests s) url = None \<or>
           (\<exists>r. http_get E (requests s) url = Some r \<and> 400 \<le> status_code r \<and> status_code r < 600)"
  shows "fetch E url s =
           (s\<lparr>requests := requests s @ [url]\<rparr>,
            Inl (case http_get E (requests s) url of
                   None \<Rightarrow> RequestException
                 | Some r \<Rightarrow> HTTPError (status_code r)))"
  using assms by (auto simp: fetch_def Let_def)





lemma crawl_links_boundary:
  assumes "max_depth \<le> current_depth" and "finite (dom (files s))"
  shows "\<exists>out s' sent. crawl_links E url max_depth current_depth hrefs s = Some (out, s') \<and>
           visited_urls s' = visited_urls s \<and> requests s' = requests s @ sent \<and>
           (\<forall>u \<in> set sent. \<exists>href \<in> set hrefs. pdf_href href \<and> urljoin E url href = Some u)"
  using assms(2)
proof (induction hrefs arbitrary: s)
  case Nil
  then show ?case by simp
next
  case (Cons href hrefs)
  show ?case
  proof (cases "urljoin E url href")
    case None
    then show ?thesis by simp
  next
    case (Some full_url)
    show ?thesis
    proof (cases "pdf_href href")
      case True
      from download_pdf_total[OF Cons.prems] obtain s1 where d: "download_pdf E full_url s = Some s1"
        by blast
      from growsD(10)[OF grows_download[OF d] Cons.prems] have fin1: "finite (dom (files s1))" .
      from Cons.IH[OF fin1] obtain out s' sent where
        c: "crawl_links E url max_depth current_depth hrefs s1 = Some (out, s')"
        and v: "visited_urls s' = visited_urls s1" and rq: "requests s' = requests s1 @ sent"
        and snt: "\<forall>u \<in> set sent. \<exists>href \<in> set hrefs. pdf_href href \<and> urljoin E url href = Some u"
        by blast
      from download_pdf_frame[OF d] v have v': "visited_urls s' = visited_urls s" by simp
      from download_pdf_requests[OF d] have "requests s1 = requests s \<or> requests s1 = requests s @ [full_url]"
        by (simp split: if_splits)
      then obtain pre where pre: "requests s1 = requests s @ pre" "pre = [] \<or> pre = [full_url]"
        by auto
      have "crawl_links E url max_depth current_depth (href # hrefs) s = Some (out, s')"
        using Some True d c by simp
      moreover have "requests s' = requests s @ (pre @ sent)" using rq pre by simp
      moreover have "\<forall>u \<in> set (pre @ sent). \<exists>h \<in> set (href # hrefs). pdf_href h \<and> urljoin E url h = Some u"
        using snt pre(2) Some True by auto
      ultimately show ?thesis using v' by blast
    next
      case nopdf: False
      show ?thesis
      proof (cases "is_valid_url E s full_url")
        case None
        with Some nopdf show ?thesis by simp
      next
        case valid: (Some v)
        let ?s0 = "s\<lparr>delays := delays s + 1\<rparr>"
        have skip: "crawl_page E full_url max_depth (current_depth + 1) ?s0 = Some (Returned, ?s0)"
          using assms(1) by (simp add: crawl_page_skip)
        have "finite (dom (files (if v \<and> full_url \<notin> visited_urls s then ?s0 else s)))"
          using Cons.prems by simp
        from Cons.IH[OF this] obtain out s' sent where
          c: "crawl_links E url max_depth current_depth hrefs (if v \<and> full_url \<notin> visited_urls s then ?s0 else s) = Some (out, s')"
          and v': "visited_urls s' = visited_urls s" and rq: "requests s' = requests s @ sent"
          and snt: "\<forall>u \<in> set sent. \<exists>href \<in> set hrefs. pdf_href href \<and> urljoin E url href = Some u"
          by (auto split: if_splits)
        have "crawl_links E url max_depth current_depth (href # hrefs) s = Some (out, s')"
          using Some nopdf valid skip c by (cases "v \<and> full_url \<notin> visited_urls s") auto
        with v' rq snt show ?thesis by auto
      qed
    qed
  qed
qed

section \<open>The collision loop and the saved name\<close>

lemma collision_loop_choice:
  assumes "collision_loop ex out_dir base_name ext filename filepath counter = Some r"
  shows "\<not> ex (snd r) \<and>
         (r = (filename, filepath) \<or>
          (ex filepath \<and>
           (\<exists>k\<ge>counter. r = (base_name @ ''_'' @ str_nat k @ ext, candidate out_dir base_name ext k) \<and>
              (\<forall>j. counter \<le> j \<and> j < k \<longrightarrow> ex (candidate out_dir base_name ext j)))))"
proof (rule collision_loop.raw_induct[where P = "\<lambda>ex out_dir base_name ext filename filepath counter r.
         \<not> ex (snd r) \<and>
         (r = (filename, filepath) \<or>
          (ex filepath \<and>
           (\<exists>k\<ge>counter. r = (base_name @ ''_'' @ str_nat k @ ext, candidate out_dir base_name ext k) \<and>
              (\<forall>j. counter \<le> j \<and> j < k \<longrightarrow> ex (candidate out_dir base_name ext j)))))", OF _ assms])
  fix loop ex out_dir base_name ext filename filepath counter r
  assume ih: "\<And>ex out_dir base_name ext filename filepath counter r.
          loop ex out_dir base_name ext filename filepath counter = Some r \<Longrightarrow>
         \<not> ex (snd r) \<and>
         (r = (filename, filepath) \<or>
          (ex filepath \<and>
           (\<exists>k\<ge>counter. r = (base_name @ ''_'' @ str_nat k @ ext, candidate out_dir base_name ext k) \<and>
              (\<forall>j. counter \<le> j \<and> j < k \<longrightarrow> ex (candidate out_dir base_name ext j)))))"
    and step: "(if ex filepath
           then loop ex out_dir base_name ext (base_name @ ''_'' @ str_nat counter @ ext)
                  (path_join out_dir (base_name @ ''_'' @ str_nat counter @ ext)) (counter + 1)
           else Some (filename, filepath)) = Some r"
  show "\<not> ex (snd r) \<and>
         (r = (filename, filepath) \<or>
          (ex filepath \<and>
           (\<exists>k\<ge>counter. r = (base_name @ ''_'' @ str_nat k @ ext, candidate out_dir base_name ext k) \<and>
              (\<forall>j. counter \<le> j \<and> j < k \<longrightarrow> ex (candidate out_dir base_name ext j)))))"
  proof (cases "ex filepath")
    case False
    with step show ?thesis by auto
  next
    case True
    with step have "loop ex out_dir base_name ext (base_name @ ''_'' @ str_nat counter @ ext)
                  (candidate out_dir base_name ext counter) (counter + 1) = Some r"
      by (simp add: candidate_def)
    from ih[OF this] have free: "\<not> ex (snd r)"
      and alt: "r = (base_name @ ''_'' @ str_nat counter @ ext, candidate out_dir base_name ext counter) \<or>
          (ex (candidate out_dir base_name ext counter) \<and>
           (\<exists>k\<ge>counter + 1. r = (base_name @ ''_'' @ str_nat k @ ext, candidate out_dir base_name ext k) \<and>
              (\<forall>j. counter + 1 \<le> j \<and> j < k \<longrightarrow> ex (candidate out_dir base_name ext j))))"
      by auto
    from alt have "\<exists>k\<ge>counter. r = (base_name @ ''_'' @ str_nat k @ ext, candidate out_dir base_name ext k) \<and>
              (\<forall>j. counter \<le> j \<and> j < k \<longrightarrow> ex (candidate out_dir base_name ext j))"
    proof
      assume "r = (base_name @ ''_'' @ str_nat counter @ ext, candidate out_dir base_name ext counter)"
      then show ?thesis by (intro exI[of _ counter]) auto
    next
      assume "ex (candidate out_dir base_name ext counter) \<and>
           (\<exists>k\<ge>counter + 1. r = (base_name @ ''_'' @ str_nat k @ ext, candidate out_dir base_name ext k) \<and>
              (\<forall>j. counter + 1 \<le> j \<and> j < k \<longrightarrow> ex (candidate out_dir base_name ext j)))"
      then obtain k where occ: "ex (candidate out_dir base_name ext counter)" and k: "counter + 1 \<le> k"
        "r = (base_name @ ''_'' @ str_nat k @ ext, candidate out_dir base_name ext k)"
        "\<forall>j. counter + 1 \<le> j \<and> j < k \<longrightarrow> ex (candidate out_dir base_name ext j)" by blast
      have "\<forall>j. counter \<le> j \<and> j < k \<longrightarrow> ex (candidate out_dir base_name ext j)"
      proof (intro allI impI)
        fix j assume "counter \<le> j \<and> j < k"
        then have "j = counter \<or> (counter + 1 \<le> j \<and> j < k)" by arith
        with occ k(3) show "ex (candidate out_dir base_name ext j)" by blast
      qed
      with k show ?thesis by (intro exI[of _ k]) simp
    qed
    with free True show ?thesis by simp
  qed
qed

lemma basename_plain: "CHR ''/'' \<notin> set f \<Longrightarrow> basename f = f"
proof -
  assume "CHR ''/'' \<notin> set f"
  then have "takeWhile (\<lambda>c. c \<noteq> CHR ''/'') (rev f) = rev f"
    by (intro takeWhile_eq_all_conv[THEN iffD2]) auto
  then show ?thesis unfolding basename_def by (simp only: rev_rev_ident)
qed

lemma splitext_pdf:
  assumes "CHR ''/'' \<notin> set stem" and "\<exists>c \<in> set stem. c \<noteq> CHR ''.''"
  shows "splitext (stem @ ''.pdf'') = (stem, ''.pdf'')"
proof -
  have b: "basename (stem @ ''.pdf'') = stem @ ''.pdf''"
    using assms(1) by (simp add: basename_plain)
  have s: "split_at_last_dot (stem @ ''.pdf'') = (stem, ''.pdf'')"
    by (simp add: split_at_last_dot_def)
  show ?thesis using assms(2) by (simp add: splitext_def b s)
qed

lemma download_pdf_target:
  assumes new: "pdf_url \<notin> downloaded_pdfs s"
    and name: "get_pdf_filename E pdf_url = Some (stem @ ''.pdf'')"
    and stem: "CHR ''/'' \<notin> set stem" "\<exists>c \<in> set stem. c \<noteq> CHR ''.''"
    and run: "download_pdf E pdf_url s = Some s'" and saved: "pdf_url \<in> downloaded_pdfs s'"
  shows "\<exists>target body. files s target = None \<and> files s' = (files s)(target \<mapsto> body) \<and>
           (target = path_join (output_dir s) (stem @ ''.pdf'') \<or>
            (files s (path_join (output_dir s) (stem @ ''.pdf'')) \<noteq> None \<and>
             (\<exists>k\<ge>1. target = path_join (output_dir s) (stem @ ''_'' @ str_nat k @ ''.pdf'') \<and>
                (\<forall>j. 1 \<le> j \<and> j < k \<longrightarrow>
                   files s (path_join (output_dir s) (stem @ ''_'' @ str_nat j @ ''.pdf'')) \<noteq> None))))"
proof -
  let ?s0 = "print (Downloading pdf_url) s"
  obtain s1 res where f: "fetch E pdf_url ?s0 = (s1, res)" by (cases "fetch E pdf_url ?s0")
  from fetch_cases[OF f] have s1: "files s1 = files s" "output_dir s1 = output_dir s"
    "downloaded_pdfs s1 = downloaded_pdfs s"
    by (simp_all add: print_def)
  let ?ex = "\<lambda>p. files s p \<noteq> None"
  let ?loop = "collision_loop ?ex (output_dir s) stem ''.pdf'' (stem @ ''.pdf'')
                 (path_join (output_dir s) (stem @ ''.pdf'')) 1"
  from new run saved f name s1 obtain resp fn target where
    res: "res = Inr resp" and loop: "?loop = Some (fn, target)"
    and s': "files s' = (files s)(target \<mapsto> content resp)"
    by (auto simp: download_pdf_def print_def splitext_pdf[OF stem]
             split: sum.splits option.splits if_splits)
  from collision_loop_choice[OF loop] have "files s target = None"
    and "target = path_join (output_dir s) (stem @ ''.pdf'') \<or>
            (files s (path_join (output_dir s) (stem @ ''.pdf'')) \<noteq> None \<and>
             (\<exists>k\<ge>1. target = path_join (output_dir s) (stem @ ''_'' @ str_nat k @ ''.pdf'') \<and>
                (\<forall>j. 1 \<le> j \<and> j < k \<longrightarrow>
                   files s (path_join (output_dir s) (stem @ ''_'' @ str_nat j @ ''.pdf'')) \<noteq> None)))"
    by (auto simp: candidate_def)
  with s' show ?thesis by blast
qed

section \<open>Runs on the small site\<close>

lemmas run_simps = download_pdf_def fetch_def print_def is_valid_url_def
  get_pdf_filename_def site_def table_env_def site_joins_def site_pages_def site_links_def
  urlparse_model_def strip_scheme_def html_def pdf_def pdf_content_type_def pdf_href_def
  lower_def lower_char_def endswith_def basename_def splitext_def split_at_last_dot_def
  path_join_def collision_loop.simps site_crawler_def Let_def

lemma site_run_depth0:
  "crawl_page site ''https://site.com/'' 0 0 (site_crawler ''out'' Map.empty) =
     Some (Returned, site_after_depth0)"
  by (simp add: crawl_page.simps run_simps site_after_depth0_def)

lemma site_download_doc:
  "download_pdf site ''https://site.com/doc.pdf'' (site_crawler ''out'' Map.empty) = Some site_after_doc"
  by (simp add: run_simps site_after_doc_def)

lemma report_collisions:
  "download_pdf site ''https://site.com/files/report.pdf''
     (site_crawler ''out'' [''out/report.pdf'' \<mapsto> ''%PDF old'']) =
     Some ((site_crawler ''out'' [''out/report.pdf'' \<mapsto> ''%PDF old''])
        \<lparr>downloaded_pdfs := {''https://site.com/files/report.pdf''},
         files := [''out/report.pdf'' \<mapsto> ''%PDF old'', ''out/report_1.pdf'' \<mapsto> ''%PDF report''],
         requests := [''https://site.com/files/report.pdf''],
         printed := [Downloading ''https://site.com/files/report.pdf'', Saved ''report_1.pdf'']\<rparr>)"
  "download_pdf site ''https://site.com/files/report.pdf''
     (site_crawler ''out'' [''out/report.pdf'' \<mapsto> ''%PDF old'', ''out/report_1.pdf'' \<mapsto> ''%PDF older'']) =
     Some ((site_crawler ''out'' [''out/report.pdf'' \<mapsto> ''%PDF old'', ''out/report_1.pdf'' \<mapsto> ''%PDF older''])
        \<lparr>downloaded_pdfs := {''https://site.com/files/report.pdf''},
         files := [''out/report.pdf'' \<mapsto> ''%PDF old'', ''out/report_1.pdf'' \<mapsto> ''%PDF older'',
                   ''out/report_2.pdf'' \<mapsto> ''%PDF report''],
         requests := [''https://site.com/files/report.pdf''],
         printed := [Downloading ''https://site.com/files/report.pdf'', Saved ''report_2.pdf'']\<rparr>)"
  by (simp_all add: run_simps str_nat.simps digit_char_def)

section \<open>Failed fetches\<close>

text \<open>
  C1, as stated, does not hold for downloads: \<open>download_pdf\<close> adds a URL to
  \<open>downloaded_pdfs\<close> only after its file is written, so a URL whose fetch failed is not in
  the set and is fetched again when a second link leads to it. On the small site the seed
  page links twice to a PDF that answers 404, and the crawl requests it twice.
\<close>

theorem failed_download_fetched_again:
  "crawl_page site ''https://site.com/'' 0 0 (site_crawler ''out'' Map.empty) =
     Some (Returned, site_after_depth0) \<and>
   http_get site [''https://site.com/'', ''https://site.com/doc.pdf'', ''https://other.example.com/y.pdf'']
     ''https://site.com/missing.pdf'' =
     Some \<lparr>status_code = 404, content_type = Some ''text/html'', content = ''not found''\<rparr> \<and>
   requests site_after_depth0 =
     [''https://site.com/'', ''https://site.com/doc.pdf'', ''https://other.example.com/y.pdf'',
      ''https://site.com/missing.pdf'', ''https://site.com/missing.pdf''] \<and>
   ''https://site.com/missing.pdf'' \<notin> downloaded_pdfs site_after_depth0"
  using site_run_depth0
  by (simp add: site_after_depth0_def site_def table_env_def site_pages_def html_def pdf_def)

text \<open>
  C1, amended. A fetch that fails (no answer, or a status from 400 to 599) is caught
  where it happens: \<open>crawl_page\<close> and \<open>download_pdf\<close> return, and the only traces
  are the request, one error line and, for a page, the URL in \<open>visited_urls\<close>. For a
  page the URL was added to \<open>visited_urls\<close> before the fetch and stays there through
  every later step, so \<open>crawl_page\<close> on it is a no-op from then on. For a download
  the URL is not added to \<open>downloaded_pdfs\<close>, and a second \<open>download_pdf\<close> on it
  sends the request again.
\<close>

theorem fetch_failure_is_contained:
  assumes "http_get E (requests s) url = None \<or>
           (\<exists>r. http_get E (requests s) url = Some r \<and> 400 \<le> status_code r \<and> status_code r < 600)"
  shows "(\<not> (current_depth > max_depth \<or> url \<in> visited_urls s) \<and> is_valid_url E s url = Some True
            \<longrightarrow> crawl_page E url max_depth current_depth s =
                  Some (Returned,
                    s\<lparr>visited_urls := insert url (visited_urls s),
                      requests := requests s @ [url],
                      printed := printed s @
                        [Crawling current_depth url,
                         ErrorCrawling url
                           (case http_get E (requests s) url of
                              None \<Rightarrow> RequestException
                            | Some r \<Rightarrow> HTTPError (status_code r))]\<rparr>)) \<and>
         (\<forall>t d m. url \<in> visited_urls t \<longrightarrow> crawl_page E url m d t = Some (Returned, t)) \<and>
         (\<forall>t u d m out t'. url \<in> visited_urls t \<and> crawl_page E u m d t = Some (out, t')
            \<longrightarrow> url \<in> visited_urls t') \<and>
         (\<forall>t u t'. url \<in> visited_urls t \<and> download_pdf E u t = Some t' \<longrightarrow> url \<in> visited_urls t') \<and>
         (url \<notin> downloaded_pdfs s
            \<longrightarrow> download_pdf E url s =
                  Some (s\<lparr>requests := requests s @ [url],
                          printed := printed s @
                            [Downloading url,
                             ErrorDownloading url
                               (case http_get E (requests s) url of
                                  None \<Rightarrow> RequestException
                                | Some r \<Rightarrow> HTTPError (status_code r))]\<rparr>)) \<and>
         (\<forall>s1 s2. url \<notin> downloaded_pdfs s \<and> download_pdf E url s = Some s1 \<and>
                  download_pdf E url s1 = Some s2
            \<longrightarrow> url \<notin> downloaded_pdfs s1 \<and> requests s2 = requests s @ [url, url])"
proof (intro conjI allI impI)
  let ?e = "case http_get E (requests s) url of None \<Rightarrow> RequestException
            | Some r \<Rightarrow> HTTPError (status_code r)"
  {
    assume a: "\<not> (current_depth > max_depth \<or> url \<in> visited_urls s) \<and> is_valid_url E s url = Some True"
    let ?s0 = "print (Crawling current_depth url) (s\<lparr>visited_urls := insert url (visited_urls s)\<rparr>)"
    have rq: "requests ?s0 = requests s" by (simp add: print_def)
    from assms have f: "fetch E url ?s0 = (?s0\<lparr>requests := requests ?s0 @ [url]\<rparr>, Inl ?e)"
      using fetch_fails[of E ?s0 url] by (simp add: rq)
    from a have g: "\<not> (current_depth > max_depth \<or> url \<in> visited_urls s)"
      and v: "is_valid_url E s url = Some True" by simp_all
    show "crawl_page E url max_depth current_depth s =
                  Some (Returned,
                    s\<lparr>visited_urls := insert url (visited_urls s),
                      requests := requests s @ [url],
                      printed := printed s @
                        [Crawling current_depth url, ErrorCrawling url ?e]\<rparr>)"
      using crawl_page_enter[OF g v f] by (simp add: print_def)
  }
  {
    fix t :: crawler and d m assume "url \<in> visited_urls t"
    then show "crawl_page E url m d t = Some (Returned, t)" by (simp add: crawl_page_skip)
  }
  {
    fix t :: crawler and u d m out t'
    assume a: "url \<in> visited_urls t \<and> crawl_page E u m d t = Some (out, t')"
    with crawl_grows(1)[of E u m d t] have "grows E t t'" by blast
    from growsD(4)[OF this] a show "url \<in> visited_urls t'" by blast
  }
  {
    fix t :: crawler and u t'
    assume a: "url \<in> visited_urls t \<and> download_pdf E u t = Some t'"
    then have "visited_urls t' = visited_urls t" using download_pdf_frame[of E u t t'] by simp
    with a show "url \<in> visited_urls t'" by simp
  }
  have f: "fetch E url (print (Downloading url) s) =
             ((print (Downloading url) s)\<lparr>requests := requests s @ [url]\<rparr>, Inl ?e)"
    using assms fetch_fails[of E "print (Downloading url) s" url] by (simp add: print_def)
  {
    assume "url \<notin> downloaded_pdfs s"
    from download_pdf_fetch_error[OF this f]
    show "download_pdf E url s =
                  Some (s\<lparr>requests := requests s @ [url],
                          printed := printed s @ [Downloading url, ErrorDownloading url ?e]\<rparr>)"
      by (simp add: print_def)
  }
  {
    fix s1 s2
    assume a: "url \<notin> downloaded_pdfs s \<and> download_pdf E url s = Some s1 \<and>
                  download_pdf E url s1 = Some s2"
    then have n: "url \<notin> downloaded_pdfs s" and d1: "download_pdf E url s = Some s1"
      and d2: "download_pdf E url s1 = Some s2" by simp_all
    from download_pdf_fetch_error[OF n f] d1
    have s1: "s1 = print (ErrorDownloading url ?e) ((print (Downloading url) s)\<lparr>requests := requests s @ [url]\<rparr>)"
      by simp
    with n show "url \<notin> downloaded_pdfs s1" by (simp add: print_def)
    then have "requests s2 = requests s1 @ [url]" using download_pdf_requests[OF d2] by simp
    with s1 show "requests s2 = requests s @ [url, url]" by (simp add: print_def)
  }
qed

theorem fetch_failure_is_contained_witness:
  "http_get site [] ''https://site.com/gone.html'' = None \<and>
   is_valid_url site (site_crawler ''out'' Map.empty) ''https://site.com/gone.html'' = Some True \<and>
   crawl_page site ''https://site.com/gone.html'' 3 2 (site_crawler ''out'' Map.empty) =
     Some (Returned,
       (site_crawler ''out'' Map.empty)
         \<lparr>visited_urls := {''https://site.com/gone.html''},
          requests := [''https://site.com/gone.html''],
          printed := [Crawling 2 ''https://site.com/gone.html'',
                      ErrorCrawling ''https://site.com/gone.html'' RequestException]\<rparr>) \<and>
   download_pdf site ''https://site.com/gone.html'' (site_crawler ''out'' Map.empty) =
     Some ((site_crawler ''out'' Map.empty)
         \<lparr>requests := [''https://site.com/gone.html''],
          printed := [Downloading ''https://site.com/gone.html'',
                      ErrorDownloading ''https://site.com/gone.html'' RequestException]\<rparr>)"
proof -
  have h: "http_get site [] ''https://site.com/gone.html'' = None"
    by (simp add: site_def table_env_def site_pages_def)
  have v: "is_valid_url site (site_crawler ''out'' Map.empty) ''https://site.com/gone.html'' = Some True"
    by (simp add: run_simps)
  have r: "requests (site_crawler ''out'' Map.empty) = []" by (simp add: site_crawler_def)
  from h r have f: "http_get site (requests (site_crawler ''out'' Map.empty)) ''https://site.com/gone.html'' = None \<or>
           (\<exists>r. http_get site (requests (site_crawler ''out'' Map.empty)) ''https://site.com/gone.html'' = Some r \<and> 400 \<le> status_code r \<and> status_code r < 600)"
    by simp
  from fetch_failure_is_contained[OF f, where current_depth = 2 and max_depth = 3] h v r show ?thesis
    by (simp add: site_crawler_def)
qed

section \<open>The guards of \<open>crawl_page\<close>\<close>



section \<open>Downloading twice\<close>

text \<open>
  C3. When a first \<open>download_pdf\<close> on a URL succeeds, it sends one request, writes
  one file at a path where none existed, and records the URL in \<open>downloaded_pdfs\<close>; a
  second \<open>download_pdf\<close> on the URL returns the state unchanged, with no request and
  no write. So does every later one in the run, since no step of the crawler takes a
  URL out of \<open>downloaded_pdfs\<close>.
\<close>

theorem download_pdf_twice:
  assumes "pdf_url \<notin> downloaded_pdfs s" and "download_pdf E pdf_url s = Some s1"
    and "pdf_url \<in> downloaded_pdfs s1"
  shows "download_pdf E pdf_url s1 = Some s1 \<and>
         (\<exists>target body. files s target = None \<and> files s1 = (files s)(target \<mapsto> body)) \<and>
         requests s1 = requests s @ [pdf_url] \<and>
         downloaded_pdfs s1 = insert pdf_url (downloaded_pdfs s) \<and>
         (\<forall>t. pdf_url \<in> downloaded_pdfs t \<longrightarrow> download_pdf E pdf_url t = Some t) \<and>
         (\<forall>t u t'. pdf_url \<in> downloaded_pdfs t \<and> download_pdf E u t = Some t'
            \<longrightarrow> pdf_url \<in> downloaded_pdfs t') \<and>
         (\<forall>t u m d out t'. pdf_url \<in> downloaded_pdfs t \<and> crawl_page E u m d t = Some (out, t')
            \<longrightarrow> pdf_url \<in> downloaded_pdfs t')"
proof -
  have again: "download_pdf E pdf_url s1 = Some s1"
    using assms(3) by (rule download_pdf_noop)
  have later: "\<forall>t. pdf_url \<in> downloaded_pdfs t \<longrightarrow> download_pdf E pdf_url t = Some t"
    by (simp add: download_pdf_noop)
  from download_pdf_files[OF assms(2)] assms(1,3)
  have one: "\<exists>target body. files s target = None \<and> files s1 = (files s)(target \<mapsto> body)"
    and rec: "downloaded_pdfs s1 = insert pdf_url (downloaded_pdfs s)" by auto
  from download_pdf_requests[OF assms(2)] assms(1)
  have req: "requests s1 = requests s @ [pdf_url]" by simp
  have keep1: "\<forall>t u t'. pdf_url \<in> downloaded_pdfs t \<and> download_pdf E u t = Some t'
            \<longrightarrow> pdf_url \<in> downloaded_pdfs t'"
  proof (intro allI impI)
    fix t :: crawler and u t'
    assume a: "pdf_url \<in> downloaded_pdfs t \<and> download_pdf E u t = Some t'"
    then have "download_pdf E u t = Some t'" by simp
    from growsD(5)[OF grows_download[OF this]] a show "pdf_url \<in> downloaded_pdfs t'" by blast
  qed
  have keep2: "\<forall>t u m d out t'. pdf_url \<in> downloaded_pdfs t \<and> crawl_page E u m d t = Some (out, t')
            \<longrightarrow> pdf_url \<in> downloaded_pdfs t'"
  proof (intro allI impI)
    fix t :: crawler and u m d out t'
    assume a: "pdf_url \<in> downloaded_pdfs t \<and> crawl_page E u m d t = Some (out, t')"
    with crawl_grows(1)[of E u m d t] have "grows E t t'" by blast
    from growsD(5)[OF this] a show "pdf_url \<in> downloaded_pdfs t'" by blast
  qed
  from again one req rec later keep1 keep2 show ?thesis by (intro conjI)
qed

theorem download_pdf_twice_witness:
  "''https://site.com/doc.pdf'' \<notin> downloaded_pdfs (site_crawler ''out'' Map.empty) \<and>
   download_pdf site ''https://site.com/doc.pdf'' (site_crawler ''out'' Map.empty) = Some site_after_doc \<and>
   ''https://site.com/doc.pdf'' \<in> downloaded_pdfs site_after_doc \<and>
   download_pdf site ''https://site.com/doc.pdf'' site_after_doc = Some site_after_doc \<and>
   files site_after_doc = [''out/doc.pdf'' \<mapsto> ''%PDF doc''] \<and>
   requests site_after_doc = [''https://site.com/doc.pdf'']"
proof -
  have a: "''https://site.com/doc.pdf'' \<notin> downloaded_pdfs (site_crawler ''out'' Map.empty)"
    by (simp add: site_crawler_def)
  have b: "''https://site.com/doc.pdf'' \<in> downloaded_pdfs site_after_doc"
    by (simp add: site_after_doc_def)
  note twice = download_pdf_twice[OF a site_download_doc b]
  from twice[THEN conjunct1] twice[THEN conjunct2, THEN conjunct2, THEN conjunct1]
    a b site_download_doc show ?thesis
    by (simp add: site_after_doc_def)
qed

section \<open>Links to other hosts\<close>



section \<open>What counts as a PDF\<close>




section \<open>Depth zero\<close>

text \<open>
  C6, as stated, does not hold: with \<open>max_depth = 0\<close> the PDFs linked from the
  seed page are still requested by \<open>download_pdf\<close>. On the small site the crawl at
  depth zero sends five requests, of which only the first is for the seed.
\<close>

theorem depth_zero_downloads_linked_pdfs:
  "crawl_page site ''https://site.com/'' 0 0 (site_crawler ''out'' Map.empty) = Some (Returned, site_after_depth0) \<and>
   requests site_after_depth0 =
     [''https://site.com/'', ''https://site.com/doc.pdf'', ''https://other.example.com/y.pdf'',
      ''https://site.com/missing.pdf'', ''https://site.com/missing.pdf''] \<and>
   requests (site_crawler ''out'' Map.empty) = []"
  using site_run_depth0
  by (simp add: site_crawler_def site_after_depth0_def)

text \<open>
  C6, amended. A crawl with \<open>max_depth = 0\<close> from depth 0 returns, adds no URL
  but the seed to \<open>visited_urls\<close>, and sends requests only for the seed and for links
  of the seed page whose \<open>href\<close> looks like a PDF: no linked page is fetched by
  \<open>crawl_page\<close>.
\<close>

theorem crawl_depth_zero:
  assumes "finite (dom (files s))"
  shows "\<exists>out s' sent.
           crawl_page E seed 0 0 s = Some (out, s') \<and>
           visited_urls s' \<subseteq> insert seed (visited_urls s) \<and>
           requests s' = requests s @ sent \<and>
           (\<forall>u \<in> set sent.
              u = seed \<or>
              (\<exists>resp hrefs href.
                 http_get E (requests s) seed = Some resp \<and>
                 find_links E (content resp) = Some hrefs \<and> href \<in> set hrefs \<and>
                 pdf_href href \<and> urljoin E seed href = Some u))"
proof -
  let ?goal = "\<lambda>out s' sent. crawl_page E seed 0 0 s = Some (out, s') \<and>
           visited_urls s' \<subseteq> insert seed (visited_urls s) \<and>
           requests s' = requests s @ sent \<and>
           (\<forall>u \<in> set sent.
              u = seed \<or>
              (\<exists>resp hrefs href.
                 http_get E (requests s) seed = Some resp \<and>
                 find_links E (content resp) = Some hrefs \<and> href \<in> set hrefs \<and>
                 pdf_href href \<and> urljoin E seed href = Some u))"
  have "\<exists>out s' sent. ?goal out s' sent"
  proof (cases "seed \<in> visited_urls s")
    case True
    then have "?goal Returned s []" by (auto simp: crawl_page_skip)
    then show ?thesis by blast
  next
    case False
    then have guard: "\<not> ((0::int) > 0 \<or> seed \<in> visited_urls s)" by simp
    show ?thesis
    proof (cases "is_valid_url E s seed")
      case None
      with guard have "?goal (Raised ValueError) s []" by (auto simp: crawl_page_raises)
      then show ?thesis by blast
    next
      case (Some v)
      show ?thesis
      proof (cases v)
        case False
        with Some have "?goal Returned s []" by (auto simp: crawl_page_invalid)
        then show ?thesis by blast
      next
        case True
        with Some have valid: "is_valid_url E s seed = Some True" by simp
        let ?s0 = "print (Crawling 0 seed) (s\<lparr>visited_urls := insert seed (visited_urls s)\<rparr>)"
        obtain s1 res where f: "fetch E seed ?s0 = (s1, res)" by (cases "fetch E seed ?s0")
        note unfold = crawl_page_enter[OF guard valid f]
        from fetch_cases[OF f] have s1: "visited_urls s1 = insert seed (visited_urls s)"
          "requests s1 = requests s @ [seed]" "files s1 = files s"
          by (simp_all add: print_def)
        from s1(3) assms have fin1: "finite (dom (files s1))" by simp
        show ?thesis
        proof (cases res)
          case (Inl e)
          with unfold s1 have "?goal Returned (print (ErrorCrawling seed e) s1) [seed]"
            by (simp add: print_def)
          then show ?thesis by blast
        next
          case (Inr resp)
          from f Inr have resp: "http_get E (requests s) seed = Some resp"
            by (auto simp: fetch_def Let_def print_def split: option.splits if_splits)
          show ?thesis
          proof (cases "pdf_content_type resp")
            case True
            from download_pdf_total[OF fin1] obtain s2 where d: "download_pdf E seed s1 = Some s2"
              by blast
            from download_pdf_requests[OF d] s1(2)
            have "requests s2 = requests s @ [seed] \<or> requests s2 = requests s @ [seed, seed]"
              by (simp split: if_splits)
            moreover from download_pdf_frame[OF d] s1(1)
            have "visited_urls s2 = insert seed (visited_urls s)" by simp
            moreover from unfold Inr True d
            have "crawl_page E seed 0 0 s = Some (Returned, s2)" by simp
            ultimately have "?goal Returned s2 [seed] \<or> ?goal Returned s2 [seed, seed]" by auto
            then show ?thesis by blast
          next
            case nopdf: False
            show ?thesis
            proof (cases "find_links E (content resp)")
              case None
              with unfold Inr nopdf s1
              have "?goal Returned (print (ErrorCrawling seed ParserError) s1) [seed]"
                by (simp add: print_def)
              then show ?thesis by blast
            next
              case (Some hrefs)
              from crawl_links_boundary[where max_depth = 0 and current_depth = 0 and E = E
                  and url = seed and hrefs = hrefs, OF order_refl fin1] obtain o2 s2 sent where
                c: "crawl_links E seed 0 0 hrefs s1 = Some (o2, s2)"
                and v: "visited_urls s2 = visited_urls s1" and rq: "requests s2 = requests s1 @ sent"
                and snt: "\<forall>u \<in> set sent. \<exists>href \<in> set hrefs. pdf_href href \<and> urljoin E seed href = Some u"
                by blast
              define s' where "s' = (case o2 of Returned \<Rightarrow> s2 | Raised e \<Rightarrow> print (ErrorCrawling seed e) s2)"
              have r: "crawl_page E seed 0 0 s = Some (Returned, s')"
                using unfold Inr nopdf Some c by (cases o2) (simp_all add: s'_def)
              have "visited_urls s' = visited_urls s2" "requests s' = requests s2"
                by (cases o2; simp add: s'_def print_def)+
              with v rq s1 have "visited_urls s' \<subseteq> insert seed (visited_urls s)"
                and "requests s' = requests s @ (seed # sent)" by simp_all
              moreover have "\<forall>u \<in> set (seed # sent). u = seed \<or>
                  (\<exists>resp hrefs href. http_get E (requests s) seed = Some resp \<and>
                     find_links E (content resp) = Some hrefs \<and> href \<in> set hrefs \<and>
                     pdf_href href \<and> urljoin E seed href = Some u)"
                using snt resp Some by auto
              ultimately have "?goal Returned s' (seed # sent)" using r by blast
              then show ?thesis by blast
            qed
          qed
        qed
      qed
    qed
  qed
  then show ?thesis .
qed

theorem crawl_depth_zero_witness:
  "finite (dom (files (site_crawler ''out'' Map.empty))) \<and>
   crawl_page site ''https://site.com/'' 0 0 (site_crawler ''out'' Map.empty) = Some (Returned, site_after_depth0) \<and>
   visited_urls site_after_depth0 = {''https://site.com/''} \<and>
   visited_urls (site_crawler ''out'' Map.empty) = {}"
proof -
  have f: "finite (dom (files (site_crawler ''out'' Map.empty)))"
    by (simp add: site_crawler_def)
  from crawl_depth_zero[OF f, of site "''https://site.com/''"] f site_run_depth0 show ?thesis
    by (simp add: site_crawler_def site_after_depth0_def)
qed

section \<open>Names on collision\<close>

text \<open>
  C7. The code at an input where it departs from the claim. Two URLs whose paths end
  in \<open>/\<close> both get the name \<open>.pdf\<close>, which \<open>splitext\<close> splits into the base \<open>.pdf\<close> and
  an empty extension. The first download is saved as \<open>.pdf\<close>, and the second one, in the
  same run, as \<open>.pdf_1\<close>: a name that does not end in \<open>.pdf\<close>.
\<close>

theorem dot_file_collision:
  "get_pdf_filename site ''https://site.com/get/?f=a.pdf'' = Some ''.pdf'' \<and>
   get_pdf_filename site ''https://site.com/get/?f=b.pdf'' = Some ''.pdf'' \<and>
   splitext ''.pdf'' = (''.pdf'', []) \<and>
   download_pdf site ''https://site.com/get/?f=a.pdf'' (site_crawler ''out'' Map.empty) =
     Some ((site_crawler ''out'' Map.empty)
        \<lparr>downloaded_pdfs := {''https://site.com/get/?f=a.pdf''},
         files := [''out/.pdf'' \<mapsto> ''%PDF a''],
         requests := [''https://site.com/get/?f=a.pdf''],
         printed := [Downloading ''https://site.com/get/?f=a.pdf'', Saved ''.pdf'']\<rparr>) \<and>
   download_pdf site ''https://site.com/get/?f=b.pdf''
     ((site_crawler ''out'' Map.empty)
        \<lparr>downloaded_pdfs := {''https://site.com/get/?f=a.pdf''},
         files := [''out/.pdf'' \<mapsto> ''%PDF a''],
         requests := [''https://site.com/get/?f=a.pdf''],
         printed := [Downloading ''https://site.com/get/?f=a.pdf'', Saved ''.pdf'']\<rparr>) =
     Some ((site_crawler ''out'' Map.empty)
        \<lparr>downloaded_pdfs := {''https://site.com/get/?f=a.pdf'', ''https://site.com/get/?f=b.pdf''},
         files := [''out/.pdf'' \<mapsto> ''%PDF a'', ''out/.pdf_1'' \<mapsto> ''%PDF b''],
         requests := [''https://site.com/get/?f=a.pdf'', ''https://site.com/get/?f=b.pdf''],
         printed := [Downloading ''https://site.com/get/?f=a.pdf'', Saved ''.pdf'',
                     Downloading ''https://site.com/get/?f=b.pdf'', Saved ''.pdf_1'']\<rparr>)"
  by (simp add: run_simps str_nat.simps digit_char_def insert_commute)

end
